theory Spec2Isabelle
  imports Main
begin

section \<open>The sliding-window request limiter of the middleware package\<close>

text \<open>
  The limiter of \<^verbatim>\<open>rate_limit.go\<close> keeps, for every key, the list of instants at which
  a request was admitted. Every instant comes from \<^verbatim>\<open>time.Now()\<close> and carries a reading
  of Go's monotonic clock, which \<^verbatim>\<open>Add\<close> shifts and \<^verbatim>\<open>After\<close> compares; an instant is
  modelled as that reading in nanoseconds and a \<^verbatim>\<open>time.Duration\<close> as its number of
  nanoseconds, both as unbounded integers (the arithmetic of \<^verbatim>\<open>now.Add(-rl.window)\<close> is
  assumed not to leave the 64-bit range).
  The mutex makes every call of \<^verbatim>\<open>allow\<close> and every cycle of the reaper one atomic step, so
  each is a function from the state before to the state after; \<^verbatim>\<open>time.Now()\<close> is a
  parameter of that step.
\<close>

type_synonym time = int
type_synonym duration = int

definition time_Add :: "time \<Rightarrow> duration \<Rightarrow> time" where
  "time_Add t d = t + d"

definition time_After :: "time \<Rightarrow> time \<Rightarrow> bool" where
  "time_After t u = (u < t)"

record rateLimiter =
  requests :: "string \<rightharpoonup> time list"
  limit :: int
  window :: duration

text \<open>
  \<^verbatim>\<open>newRateLimiter\<close> stores its arguments and an empty map. It checks nothing. The
  goroutine it starts runs \<^verbatim>\<open>cleanup\<close>, whose first statement is
  \<^verbatim>\<open>time.NewTicker(rl.window)\<close>; the standard library makes that call panic when the
  interval is not positive.
\<close>

definition newRateLimiter :: "int \<Rightarrow> duration \<Rightarrow> rateLimiter" where
  "newRateLimiter limit0 window0 =
     \<lparr>requests = Map.empty, limit = limit0, window = window0\<rparr>"

datatype panic = NonPositiveTickerInterval

definition cleanup_NewTicker :: "rateLimiter \<Rightarrow> panic + unit" where
  "cleanup_NewTicker rl =
     (if window rl \<le> 0 then Inl NonPositiveTickerInterval else Inr ())"

text \<open>
  The loop \<^verbatim>\<open>for _, t := range requests { if t.After(windowStart) { append } }\<close>, with
  the slice built so far as accumulator. Both \<^verbatim>\<open>allow\<close> and \<^verbatim>\<open>cleanup\<close> contain it.
\<close>

fun validRequests_loop :: "time \<Rightarrow> time list \<Rightarrow> time list \<Rightarrow> time list" where
  "validRequests_loop windowStart [] validRequests = validRequests"
| "validRequests_loop windowStart (t # rest) validRequests =
     validRequests_loop windowStart rest
       (if time_After t windowStart then validRequests @ [t] else validRequests)"

text \<open>Reading \<^verbatim>\<open>rl.requests[key]\<close>: a key that is not in the map gives the nil slice.\<close>

definition lookup_requests :: "rateLimiter \<Rightarrow> string \<Rightarrow> time list" where
  "lookup_requests rl key = (case requests rl key of None \<Rightarrow> [] | Some ts \<Rightarrow> ts)"

definition allow :: "string \<Rightarrow> time \<Rightarrow> rateLimiter \<Rightarrow> bool \<times> rateLimiter" where
  "allow key now rl =
     (let windowStart = time_Add now (- window rl);
          validRequests = validRequests_loop windowStart (lookup_requests rl key) []
      in if limit rl \<le> int (length validRequests)
         then (False, rl\<lparr>requests := (requests rl)(key \<mapsto> validRequests)\<rparr>)
         else (True, rl\<lparr>requests := (requests rl)(key \<mapsto> validRequests @ [now])\<rparr>))"

text \<open>
  One cycle of the reaper (one tick of the ticker in \<^verbatim>\<open>cleanup\<close>). \<^verbatim>\<open>cleanup_key\<close> is
  the body of \<^verbatim>\<open>for key, requests := range rl.requests\<close> for one key; the cycle runs it
  over \<^verbatim>\<open>keys\<close>, the keys of the map in the order in which the range statement happens to
  produce them. The body deletes or rewrites the entry of the current key only, so the
  range statement produces every key that was in the map when the cycle began, once.
\<close>

definition cleanup_key :: "time \<Rightarrow> string \<Rightarrow> rateLimiter \<Rightarrow> rateLimiter" where
  "cleanup_key windowStart key rl =
     (case requests rl key of
        None \<Rightarrow> rl
      | Some reqs \<Rightarrow>
          (let validRequests = validRequests_loop windowStart reqs []
           in if length validRequests = 0
              then rl\<lparr>requests := (requests rl)(key := None)\<rparr>
              else rl\<lparr>requests := (requests rl)(key \<mapsto> validRequests)\<rparr>))"

definition cleanup_cycle :: "time \<Rightarrow> string list \<Rightarrow> rateLimiter \<Rightarrow> rateLimiter" where
  "cleanup_cycle now keys rl =
     (let windowStart = time_Add now (- window rl)
      in fold (cleanup_key windowStart) keys rl)"

text \<open>A caller that calls \<^verbatim>\<open>allow\<close> for one key at each instant of a list, in order.\<close>

fun allow_calls :: "string \<Rightarrow> time list \<Rightarrow> rateLimiter \<Rightarrow> bool list \<times> rateLimiter" where
  "allow_calls key [] rl = ([], rl)"
| "allow_calls key (now # nows) rl =
     (case allow key now rl of
        (b, rl') \<Rightarrow> (case allow_calls key nows rl' of (bs, rl'') \<Rightarrow> (b # bs, rl'')))"

text \<open>
  The invariant of the ledgers: no ledger is longer than \<^verbatim>\<open>limit\<close> and every ledger is
  in nondecreasing order. \<^verbatim>\<open>timestamps_upto clock\<close> says that no stored timestamp is later
  than the reading \<^verbatim>\<open>clock\<close> of the clock.
\<close>

definition ledgers_bounded_sorted :: "rateLimiter \<Rightarrow> bool" where
  "ledgers_bounded_sorted rl =
     (\<forall>key ts. requests rl key = Some ts \<longrightarrow> int (length ts) \<le> limit rl \<and> sorted ts)"

definition timestamps_upto :: "time \<Rightarrow> rateLimiter \<Rightarrow> bool" where
  "timestamps_upto clock rl =
     (\<forall>key ts. requests rl key = Some ts \<longrightarrow> (\<forall>t\<in>set ts. t \<le> clock))"

text \<open>
  An execution of the limiter is a list of atomic steps, in the order in which they take
  the mutex: calls of \<^verbatim>\<open>allow\<close> and cycles of the reaper, each with the reading of the
  clock it obtained from \<^verbatim>\<open>time.Now()\<close>.
\<close>

datatype event = Allow string time | Cleanup time "string list"

fun event_time :: "event \<Rightarrow> time" where
  "event_time (Allow key now) = now"
| "event_time (Cleanup now keys) = now"

fun step :: "event \<Rightarrow> rateLimiter \<Rightarrow> rateLimiter" where
  "step (Allow key now) rl = snd (allow key now rl)"
| "step (Cleanup now keys) rl = cleanup_cycle now keys rl"

definition run :: "event list \<Rightarrow> rateLimiter \<Rightarrow> rateLimiter" where
  "run events rl = fold step events rl"

section \<open>The pruning loop\<close>

lemma validRequests_loop_filter:
  "validRequests_loop windowStart ts acc = acc @ filter (\<lambda>t. windowStart < t) ts"
  by (induction ts arbitrary: acc) (simp_all add: time_After_def)

lemma filter_sorted_dropWhile:
  "sorted ts \<Longrightarrow> filter (\<lambda>t. (w::int) < t) ts = dropWhile (\<lambda>t. \<not> w < t) ts"
proof (induction ts)
  case Nil
  show ?case by simp
next
  case (Cons t ts)
  show ?case
  proof (cases "w < t")
    case True
    with Cons.prems have "\<forall>u\<in>set ts. w < u" by auto
    then have "filter (\<lambda>t. w < t) ts = ts" by simp
    with True show ?thesis by simp
  next
    case False
    with Cons show ?thesis by simp
  qed
qed

text \<open>
  C8. On a ledger in nondecreasing order, the element-by-element filter of \<^verbatim>\<open>allow\<close> and
  \<^verbatim>\<open>cleanup\<close> (keep the instants strictly after \<^verbatim>\<open>windowStart\<close>) returns the ledger
  without its longest prefix of instants that are not after \<^verbatim>\<open>windowStart\<close>: the same
  elements in the same order.
\<close>

theorem prune_is_prefix_drop:
  "sorted ts \<Longrightarrow>
   validRequests_loop windowStart ts [] = dropWhile (\<lambda>t. \<not> time_After t windowStart) ts"
  by (simp add: validRequests_loop_filter filter_sorted_dropWhile time_After_def)

theorem prune_is_prefix_drop_witness:
  "sorted [1, 5, 5, 9 :: int] \<and>
   validRequests_loop 5 [1, 5, 5, 9] [] = [9] \<and>
   dropWhile (\<lambda>t. \<not> time_After t 5) [1, 5, 5, 9 :: int] = [9]"
  using prune_is_prefix_drop [of "[1, 5, 5, 9]" 5] by (simp add: time_After_def)

section \<open>What one call of allow does\<close>

lemma allow_fst:
  "fst (allow key now rl) =
     (int (length (filter (\<lambda>t. now - window rl < t) (lookup_requests rl key))) < limit rl)"
  by (auto simp add: allow_def Let_def validRequests_loop_filter time_Add_def)

lemma allow_requests_same:
  "requests (snd (allow key now rl)) key =
     Some (let v = filter (\<lambda>t. now - window rl < t) (lookup_requests rl key)
           in if limit rl \<le> int (length v) then v else v @ [now])"
  by (simp add: allow_def Let_def validRequests_loop_filter time_Add_def)

lemma allow_lookup_same:
  "lookup_requests (snd (allow key now rl)) key =
     (let v = filter (\<lambda>t. now - window rl < t) (lookup_requests rl key)
      in if limit rl \<le> int (length v) then v else v @ [now])"
  by (simp add: lookup_requests_def allow_requests_same)

lemma allow_requests_other:
  "key' \<noteq> key \<Longrightarrow> requests (snd (allow key now rl)) key' = requests rl key'"
  by (simp add: allow_def Let_def)

lemma allow_limit: "limit (snd (allow key now rl)) = limit rl"
  by (simp add: allow_def Let_def)

lemma allow_window: "window (snd (allow key now rl)) = window rl"
  by (simp add: allow_def Let_def)

section \<open>The quota inside one window\<close>

lemma allow_calls_Cons_fst:
  "fst (allow_calls key (now # nows) rl) =
     fst (allow key now rl) # fst (allow_calls key nows (snd (allow key now rl)))"
  by (simp split: prod.splits)

lemma allow_calls_Cons_snd:
  "snd (allow_calls key (now # nows) rl) = snd (allow_calls key nows (snd (allow key now rl)))"
  by (simp split: prod.splits)

declare allow_calls.simps(2) [simp del]

lemma length_allow_calls: "length (fst (allow_calls key nows rl)) = length nows"
  by (induction nows arbitrary: rl) (simp_all add: allow_calls_Cons_fst)

lemma filter_filter_later:
  "(a::int) \<le> b \<Longrightarrow> filter (\<lambda>t. b < t) (filter (\<lambda>t. a < t) ts) = filter (\<lambda>t. b < t) ts"
  by (induction ts) auto

lemma admitted_bound:
  "\<forall>now\<in>set nows. T - window rl < now \<and> now \<le> T \<Longrightarrow>
   int (length (filter (\<lambda>b. b) (fst (allow_calls key nows rl)))) +
     int (length (filter (\<lambda>t. T - window rl < t) (lookup_requests rl key)))
   \<le> max (limit rl) (int (length (filter (\<lambda>t. T - window rl < t) (lookup_requests rl key))))"
proof (induction nows arbitrary: rl)
  case Nil
  show ?case by simp
next
  case (Cons now nows)
  let ?L = "lookup_requests rl key"
  let ?v = "filter (\<lambda>t. now - window rl < t) ?L"
  let ?P = "filter (\<lambda>t. T - window rl < t) ?L"
  let ?rl = "snd (allow key now rl)"
  from Cons.prems have now: "T - window rl < now" "now \<le> T" by simp_all
  have Pv: "filter (\<lambda>t. T - window rl < t) ?v = ?P"
    using now by (intro filter_filter_later) simp
  then have len: "length ?P \<le> length ?v"
    by (metis length_filter_le)
  from Cons.prems have "\<forall>now\<in>set nows. T - window ?rl < now \<and> now \<le> T"
    by (simp add: allow_window)
  from Cons.IH [OF this]
  have IH: "int (length (filter (\<lambda>b. b) (fst (allow_calls key nows ?rl)))) +
      int (length (filter (\<lambda>t. T - window rl < t) (lookup_requests ?rl key)))
    \<le> max (limit rl) (int (length (filter (\<lambda>t. T - window rl < t) (lookup_requests ?rl key))))"
    by (simp add: allow_window allow_limit)
  show ?case
  proof (cases "fst (allow key now rl)")
    case True
    then have lt: "int (length ?v) < limit rl" by (simp add: allow_fst)
    then have "lookup_requests ?rl key = ?v @ [now]"
      by (simp add: allow_lookup_same Let_def)
    then have "filter (\<lambda>t. T - window rl < t) (lookup_requests ?rl key) = ?P @ [now]"
      using Pv now by simp
    with IH lt len True show ?thesis
      by (simp add: allow_calls_Cons_fst)
  next
    case False
    then have "limit rl \<le> int (length ?v)" by (simp add: allow_fst)
    then have "lookup_requests ?rl key = ?v"
      by (simp add: allow_lookup_same Let_def)
    with IH Pv False show ?thesis
      by (simp add: allow_calls_Cons_fst)
  qed
qed

lemma late_calls_rejected:
  "\<forall>now\<in>set nows. T - window rl < now \<and> now \<le> T \<Longrightarrow>
   \<forall>t\<in>set (lookup_requests rl key). T - window rl < t \<or> (\<forall>now\<in>set nows. t \<le> now - window rl) \<Longrightarrow>
   i < length nows \<Longrightarrow>
   limit rl \<le> int i + int (length (filter (\<lambda>t. T - window rl < t) (lookup_requests rl key))) \<Longrightarrow>
   \<not> fst (allow_calls key nows rl) ! i"
proof (induction nows arbitrary: rl i)
  case Nil
  then show ?case by simp
next
  case (Cons now nows)
  let ?L = "lookup_requests rl key"
  let ?v = "filter (\<lambda>t. now - window rl < t) ?L"
  let ?P = "filter (\<lambda>t. T - window rl < t) ?L"
  let ?rl = "snd (allow key now rl)"
  from Cons.prems(1) have now: "T - window rl < now" "now \<le> T" by simp_all
  have vP: "?v = ?P"
  proof (rule filter_cong [OF refl])
    fix t assume "t \<in> set ?L"
    with Cons.prems(2) have "T - window rl < t \<or> t \<le> now - window rl" by auto
    with now show "(now - window rl < t) = (T - window rl < t)" by auto
  qed
  show ?case
  proof (cases i)
    case 0
    with Cons.prems(4) vP show ?thesis
      by (simp add: allow_calls_Cons_fst allow_fst)
  next
    case (Suc j)
    have calls: "\<forall>now\<in>set nows. T - window ?rl < now \<and> now \<le> T"
      using Cons.prems(1) by (simp add: allow_window)
    have sub: "set (lookup_requests ?rl key) \<subseteq> set ?P \<union> {now}"
      using vP by (auto simp add: allow_lookup_same Let_def)
    have led: "\<forall>t\<in>set (lookup_requests ?rl key).
        T - window ?rl < t \<or> (\<forall>now\<in>set nows. t \<le> now - window ?rl)"
      using sub now by (auto simp add: allow_window)
    have j: "j < length nows" using Cons.prems(3) Suc by simp
    have "limit ?rl \<le> int j +
        int (length (filter (\<lambda>t. T - window ?rl < t) (lookup_requests ?rl key)))"
    proof (cases "limit rl \<le> int (length ?v)")
      case True
      then have "lookup_requests ?rl key = ?v"
        by (simp add: allow_lookup_same Let_def)
      with True vP show ?thesis
        by (simp add: allow_window allow_limit)
    next
      case False
      then have "lookup_requests ?rl key = ?v @ [now]"
        by (simp add: allow_lookup_same Let_def)
      with vP now Cons.prems(4) Suc show ?thesis
        by (simp add: allow_window allow_limit)
    qed
    from Cons.IH [OF calls led j this] Suc show ?thesis
      by (simp add: allow_calls_Cons_fst)
  qed
qed

text \<open>
  C1. One key is called at the instants \<^verbatim>\<open>nows\<close>, in this order, and any two of the
  instants are less than one window apart (for nondecreasing instants: the last is less
  than \<^verbatim>\<open>window\<close> after the first). Then, from any state of the limiter, at most
  \<^verbatim>\<open>limit\<close> of the calls return true. When moreover no timestamp that the key's
  ledger holds before the first call is still inside the window at any of the calls (a
  fresh limiter, a key without entry), every call after the first \<^verbatim>\<open>limit\<close> ones
  returns false: with \<^verbatim>\<open>n > limit\<close> calls these are the call number
  \<^verbatim>\<open>limit + 1\<close> and the later ones, not the call number \<^verbatim>\<open>n - limit\<close>.
\<close>

theorem allow_window_quota:
  assumes "\<forall>s\<in>set nows. \<forall>t\<in>set nows. t - s < window rl"
  shows "length (filter (\<lambda>b. b) (fst (allow_calls key nows rl))) \<le> nat (limit rl) \<and>
    ((\<forall>t\<in>set (lookup_requests rl key). \<forall>now\<in>set nows. \<not> time_After t (time_Add now (- window rl))) \<longrightarrow>
     (\<forall>i<length nows. limit rl \<le> int i \<longrightarrow> \<not> fst (allow_calls key nows rl) ! i))"
proof (cases "nows = []")
  case True
  then show ?thesis by simp
next
  case False
  define T where "T = Max (set nows)"
  have T: "T \<in> set nows" "\<forall>now\<in>set nows. now \<le> T"
    using False by (simp_all add: T_def)
  with assms have calls: "\<forall>now\<in>set nows. T - window rl < now \<and> now \<le> T"
    by fastforce
  have "length (filter (\<lambda>b. b) (fst (allow_calls key nows rl))) \<le> nat (limit rl)"
    using admitted_bound [OF calls, of key] by linarith
  moreover have "\<not> fst (allow_calls key nows rl) ! i"
    if old: "\<forall>t\<in>set (lookup_requests rl key). \<forall>now\<in>set nows. \<not> time_After t (time_Add now (- window rl))"
      and i: "i < length nows" "limit rl \<le> int i" for i
  proof -
    from old have exp: "\<forall>t\<in>set (lookup_requests rl key). \<forall>now\<in>set nows. t \<le> now - window rl"
      by (simp add: time_After_def time_Add_def not_less)
    with T(1) have "\<forall>t\<in>set (lookup_requests rl key). \<not> T - window rl < t"
      by (simp add: not_less)
    then have "filter (\<lambda>t. T - window rl < t) (lookup_requests rl key) = []"
      by (simp add: filter_empty_conv)
    with late_calls_rejected [OF calls _ i(1), of key] exp i(2) show ?thesis
      by simp
  qed
  ultimately show ?thesis by blast
qed

theorem allow_window_quota_witness:
  "length (filter (\<lambda>b. b) (fst (allow_calls ''A'' [0, 3, 5, 9] (newRateLimiter 2 10)))) \<le> 2 \<and>
   \<not> fst (allow_calls ''A'' [0, 3, 5, 9] (newRateLimiter 2 10)) ! 2 \<and>
   \<not> fst (allow_calls ''A'' [0, 3, 5, 9] (newRateLimiter 2 10)) ! 3"
proof -
  let ?rl = "newRateLimiter 2 10"
  have calls: "\<forall>s\<in>set [0, 3, 5, 9]. \<forall>t\<in>set [0, 3, 5, 9]. t - s < window ?rl"
    by (simp add: newRateLimiter_def)
  have fresh: "\<forall>t\<in>set (lookup_requests ?rl ''A'').
      \<forall>now\<in>set [0, 3, 5, 9]. \<not> time_After t (time_Add now (- window ?rl))"
    by (simp add: newRateLimiter_def lookup_requests_def)
  from allow_window_quota [OF calls, of "''A''"] fresh show ?thesis
    by (simp add: newRateLimiter_def)
qed

text \<open>
  With \<^verbatim>\<open>limit = 2\<close> and three calls inside one window, call number \<^verbatim>\<open>3 - 2 = 1\<close> is
  admitted, so not every call from number \<^verbatim>\<open>n - limit\<close> on (index \<^verbatim>\<open>i\<close> from 0,
  \<^verbatim>\<open>n - limit <= i + 1\<close>) returns false. With \<^verbatim>\<open>limit = 1\<close>, \<^verbatim>\<open>window = 60\<close> and an admission at instant 0
  in the ledger, the calls at 59 and 61 are inside one window and the second of them is
  admitted, because the old admission expires between them.
\<close>

theorem allow_window_quota_counterexample:
  "fst (allow_calls ''A'' [0, 1, 2] (newRateLimiter 2 10)) = [True, True, False] \<and>
   \<not> (\<forall>i<3. 3 - 2 \<le> Suc i \<longrightarrow> \<not> fst (allow_calls ''A'' [0, 1, 2] (newRateLimiter 2 10)) ! i) \<and>
   fst (allow_calls ''A'' [59, 61] (snd (allow ''A'' 0 (newRateLimiter 1 60)))) = [False, True]"
proof -
  have 1: "fst (allow_calls ''A'' [0, 1, 2] (newRateLimiter 2 10)) = [True, True, False]"
    by code_simp
  have 2: "fst (allow_calls ''A'' [59, 61] (snd (allow ''A'' 0 (newRateLimiter 1 60)))) =
      [False, True]"
    by code_simp
  have "\<not> (\<forall>i<3. 3 - 2 \<le> Suc i \<longrightarrow> \<not> [True, True, False] ! i)"
    by (simp add: All_less_Suc numeral_3_eq_3)
  with 1 2 show ?thesis by simp
qed

text \<open>
  Two calls that are exactly one window apart are not inside one window: the pruning
  keeps the timestamps strictly after \<^verbatim>\<open>now - window\<close>, so with \<^verbatim>\<open>limit = 1\<close> and
  \<^verbatim>\<open>window = 60\<close> the calls at 0 and 60 are both admitted, and the calls at 0 and 59 are
  not.
\<close>

lemma window_boundary_admits:
  "fst (allow_calls ''A'' [0, 60] (newRateLimiter 1 60)) = [True, True] \<and>
   fst (allow_calls ''A'' [0, 59] (newRateLimiter 1 60)) = [True, False]"
  by code_simp

section \<open>Construction\<close>

text \<open>
  C2. \<^verbatim>\<open>newRateLimiter\<close> rejects nothing: for every \<^verbatim>\<open>limit\<close> and every \<^verbatim>\<open>window\<close>, also
  non-positive ones, it returns a limiter with an empty map that stores the two arguments
  unchanged. A non-positive \<^verbatim>\<open>limit\<close> is detected nowhere. A non-positive \<^verbatim>\<open>window\<close> is
  detected only by the reaper goroutine that the constructor starts, when it creates its
  ticker: that call panics exactly when \<^verbatim>\<open>window <= 0\<close>.
\<close>

theorem newRateLimiter_unchecked:
  "newRateLimiter limit0 window0 = \<lparr>requests = Map.empty, limit = limit0, window = window0\<rparr> \<and>
   (cleanup_NewTicker (newRateLimiter limit0 window0) = Inl NonPositiveTickerInterval) = (window0 \<le> 0)"
  by (simp add: newRateLimiter_def cleanup_NewTicker_def)

text \<open>
  With \<^verbatim>\<open>limit = 0\<close> and a window of 60 seconds the constructor returns a limiter, the
  reaper's ticker is created without panic, and the limiter answers calls (it rejects them).
\<close>

theorem newRateLimiter_unchecked_counterexample:
  "newRateLimiter 0 60000000000 = \<lparr>requests = Map.empty, limit = 0, window = 60000000000\<rparr> \<and>
   cleanup_NewTicker (newRateLimiter 0 60000000000) = Inr () \<and>
   fst (allow ''A'' 0 (newRateLimiter 0 60000000000)) = False"
  by (simp add: newRateLimiter_def cleanup_NewTicker_def allow_fst)

section \<open>The scenario of the specification\<close>

text \<open>
  C3. \<^verbatim>\<open>limit = 5\<close>, \<^verbatim>\<open>window = 60s\<close>, a fresh limiter. Six calls for key A, the first at
  0s and each 1ms after the one before, return true five times and then false. A seventh
  call for A at 61s returns true. A call for key B at 0s, made when the quota of A is
  used up, returns true.
\<close>

theorem scenario_limit5_window60s:
  "fst (allow_calls ''A'' [0, 1000000, 2000000, 3000000, 4000000, 5000000]
         (newRateLimiter 5 60000000000)) = [True, True, True, True, True, False] \<and>
   fst (allow ''A'' 61000000000
         (snd (allow_calls ''A'' [0, 1000000, 2000000, 3000000, 4000000, 5000000]
                (newRateLimiter 5 60000000000)))) = True \<and>
   fst (allow ''B'' 0
         (snd (allow_calls ''A'' [0, 1000000, 2000000, 3000000, 4000000, 5000000]
                (newRateLimiter 5 60000000000)))) = True"
  by code_simp

section \<open>A limiter with a non-positive limit\<close>

text \<open>
  C9. When \<^verbatim>\<open>limit <= 0\<close>, a call of \<^verbatim>\<open>allow\<close> for any key at any instant returns false,
  appends no timestamp, and stores the pruned ledger of the key into the map: after the
  call the key has an entry, also when it had none and was never admitted. The limit is
  unchanged, so this holds for every later call too.
\<close>

theorem allow_nonpositive_limit:
  "limit rl \<le> 0 \<Longrightarrow>
   fst (allow key now rl) = False \<and>
   requests (snd (allow key now rl)) key =
     Some (filter (\<lambda>t. time_After t (time_Add now (- window rl))) (lookup_requests rl key)) \<and>
   key \<in> dom (requests (snd (allow key now rl))) \<and>
   limit (snd (allow key now rl)) = limit rl"
  by (auto simp add: allow_fst allow_requests_same allow_limit Let_def time_After_def time_Add_def)

theorem allow_nonpositive_limit_witness:
  "fst (allow ''A'' 7 (newRateLimiter 0 60)) = False \<and>
   requests (snd (allow ''A'' 7 (newRateLimiter 0 60))) ''A'' = Some [] \<and>
   ''A'' \<in> dom (requests (snd (allow ''A'' 7 (newRateLimiter 0 60)))) \<and>
   requests (newRateLimiter 0 60) ''A'' = None"
  using allow_nonpositive_limit [of "newRateLimiter 0 60" "''A''" 7]
  by (simp add: newRateLimiter_def lookup_requests_def)

section \<open>Keys do not interact\<close>

text \<open>
  C6. A call of \<^verbatim>\<open>allow\<close> for key \<^verbatim>\<open>k1\<close> leaves the map entry of every other key
  \<^verbatim>\<open>k2\<close> as it was. Its result, and the ledger it stores for \<^verbatim>\<open>k1\<close>, are the same in any
  two limiter states that agree on the ledger of \<^verbatim>\<open>k1\<close>, on \<^verbatim>\<open>limit\<close> and on
  \<^verbatim>\<open>window\<close>, at the same instant: no other key's ledger has an influence.
\<close>

theorem allow_keys_independent:
  "(k1 \<noteq> k2 \<longrightarrow> requests (snd (allow k1 now rl)) k2 = requests rl k2) \<and>
   (lookup_requests rl k1 = lookup_requests rl' k1 \<and> limit rl = limit rl' \<and> window rl = window rl'
      \<longrightarrow> fst (allow k1 now rl) = fst (allow k1 now rl') \<and>
          requests (snd (allow k1 now rl)) k1 = requests (snd (allow k1 now rl')) k1)"
  by (simp add: allow_requests_other allow_fst allow_requests_same)

theorem allow_keys_independent_witness:
  "requests (snd (allow ''A'' 5 (snd (allow ''B'' 3 (newRateLimiter 1 60))))) ''B'' = Some [3] \<and>
   fst (allow ''A'' 5 (snd (allow ''B'' 3 (newRateLimiter 1 60)))) = True \<and>
   fst (allow ''A'' 5 (newRateLimiter 1 60)) = True"
proof -
  let ?rl = "snd (allow ''B'' 3 (newRateLimiter 1 60))" and ?rl' = "newRateLimiter 1 60"
  have ne: "''A'' \<noteq> ''B''" by simp
  have same: "lookup_requests ?rl ''A'' = lookup_requests ?rl' ''A'' \<and>
      limit ?rl = limit ?rl' \<and> window ?rl = window ?rl'"
    by (simp add: lookup_requests_def allow_requests_other allow_limit allow_window)
  have B: "requests ?rl ''B'' = Some [3]"
    by (simp add: allow_requests_same newRateLimiter_def lookup_requests_def)
  have A: "fst (allow ''A'' 5 ?rl')"
    by (simp add: allow_fst newRateLimiter_def lookup_requests_def)
  from allow_keys_independent [of "''A''" "''B''" 5 ?rl ?rl'] ne same B A show ?thesis
    by simp
qed

section \<open>The stored ledger lies inside the window\<close>

text \<open>
  C5. The window is positive and no timestamp in the key's ledger is later than
  \<^verbatim>\<open>now\<close> (the clock does not go backwards, and every timestamp is an earlier reading of
  it). After \<^verbatim>\<open>allow(key)\<close> at \<^verbatim>\<open>now\<close> the key has an entry, every timestamp \<^verbatim>\<open>t\<close> of it
  satisfies \<^verbatim>\<open>now - window < t <= now\<close>, and on the rejection path the entry is exactly
  the pruned ledger that the loop computed.
\<close>

theorem allow_stores_pruned:
  assumes "0 < window rl" and "\<forall>t\<in>set (lookup_requests rl key). t \<le> now"
  shows "requests (snd (allow key now rl)) key = Some (lookup_requests (snd (allow key now rl)) key) \<and>
    (\<forall>t\<in>set (lookup_requests (snd (allow key now rl)) key). now - window rl < t \<and> t \<le> now) \<and>
    (\<not> fst (allow key now rl) \<longrightarrow>
       lookup_requests (snd (allow key now rl)) key =
         validRequests_loop (time_Add now (- window rl)) (lookup_requests rl key) [])"
  using assms
  by (auto simp add: allow_requests_same allow_lookup_same allow_fst Let_def
        validRequests_loop_filter time_Add_def)

theorem allow_stores_pruned_witness:
  "fst (allow ''A'' 10 (snd (allow ''A'' 0 (newRateLimiter 1 60)))) = False \<and>
   requests (snd (allow ''A'' 10 (snd (allow ''A'' 0 (newRateLimiter 1 60))))) ''A'' = Some [0] \<and>
   requests (snd (allow ''A'' 70 (snd (allow ''A'' 0 (newRateLimiter 1 60))))) ''A'' = Some [70]"
proof -
  let ?rl = "snd (allow ''A'' 0 (newRateLimiter 1 60))"
  have led: "lookup_requests ?rl ''A'' = [0]"
    by (simp add: allow_lookup_same) (simp add: newRateLimiter_def lookup_requests_def)
  have lw: "limit ?rl = 1" "window ?rl = 60"
    by (simp_all add: allow_limit allow_window newRateLimiter_def)
  have w: "0 < window ?rl" by (simp add: lw)
  have old: "\<forall>t\<in>set (lookup_requests ?rl ''A''). t \<le> 10"
    "\<forall>t\<in>set (lookup_requests ?rl ''A''). t \<le> 70"
    by (simp_all add: led)
  note a = allow_stores_pruned [OF w old(1)] and b = allow_stores_pruned [OF w old(2)]
  have f: "fst (allow ''A'' 10 ?rl) = False"
    by (simp add: allow_fst led lw)
  have l10: "lookup_requests (snd (allow ''A'' 10 ?rl)) ''A'' = [0]"
    by (simp add: allow_lookup_same [of "''A''" 10] led lw)
  have l70: "lookup_requests (snd (allow ''A'' 70 ?rl)) ''A'' = [70]"
    by (simp add: allow_lookup_same [of "''A''" 70] led lw)
  from a b show ?thesis
    by (simp only: f l10 l70)
qed

section \<open>After a full window the key is admitted again\<close>

lemma allow_calls_append_fst:
  "fst (allow_calls key (xs @ ys) rl) =
     fst (allow_calls key xs rl) @ fst (allow_calls key ys (snd (allow_calls key xs rl)))"
  by (induction xs arbitrary: rl)
     (simp_all add: allow_calls_Cons_fst allow_calls_Cons_snd)

lemma allow_calls_append_snd:
  "snd (allow_calls key (xs @ ys) rl) = snd (allow_calls key ys (snd (allow_calls key xs rl)))"
  by (induction xs arbitrary: rl)
     (simp_all add: allow_calls_Cons_snd)

lemma allow_calls_limit: "limit (snd (allow_calls key nows rl)) = limit rl"
  by (induction nows arbitrary: rl)
     (simp_all add: allow_calls_Cons_snd allow_limit)

lemma allow_calls_window: "window (snd (allow_calls key nows rl)) = window rl"
  by (induction nows arbitrary: rl)
     (simp_all add: allow_calls_Cons_snd allow_window)

lemma admitted_then_expired:
  assumes "fst (allow key t0 rl)" and "0 < eps"
  shows "fst (allow key (t0 + window rl + eps) (snd (allow key t0 rl)))"
proof -
  let ?v = "filter (\<lambda>t. t0 - window rl < t) (lookup_requests rl key)"
  from assms(1) have lt: "int (length ?v) < limit rl" by (simp add: allow_fst)
  then have L: "lookup_requests (snd (allow key t0 rl)) key = ?v @ [t0]"
    by (simp add: allow_lookup_same Let_def)
  have "length (filter (\<lambda>t. t0 + eps < t) ?v) \<le> length ?v"
    by (rule length_filter_le)
  with lt assms(2) show ?thesis
    by (simp add: allow_fst [of key _ "snd (allow key t0 rl)"] L allow_window allow_limit)
qed

lemma all_admitted_ledger:
  "0 < window rl \<Longrightarrow>
   fst (allow_calls key (replicate (Suc k) t0) rl) = replicate (Suc k) True \<Longrightarrow>
   lookup_requests (snd (allow_calls key (replicate (Suc k) t0) rl)) key =
     filter (\<lambda>t. t0 - window rl < t) (lookup_requests rl key) @ replicate (Suc k) t0 \<and>
   int (length (filter (\<lambda>t. t0 - window rl < t) (lookup_requests rl key))) + int (Suc k) \<le> limit rl"
proof (induction k arbitrary: rl)
  case 0
  then show ?case
    by (simp add: allow_calls_Cons_fst allow_calls_Cons_snd allow_fst allow_lookup_same Let_def)
next
  case (Suc k)
  let ?v = "filter (\<lambda>t. t0 - window rl < t) (lookup_requests rl key)"
  let ?rl = "snd (allow key t0 rl)"
  have rep: "replicate (Suc (Suc k)) t0 = t0 # replicate (Suc k) t0" by simp
  have repT: "replicate (Suc (Suc k)) True = True # replicate (Suc k) True" by simp
  from Suc.prems(2) have first: "fst (allow key t0 rl)"
    and rest: "fst (allow_calls key (replicate (Suc k) t0) ?rl) = replicate (Suc k) True"
    unfolding rep repT by (simp_all add: allow_calls_Cons_fst del: replicate.simps)
  from first have "int (length ?v) < limit rl" by (simp add: allow_fst)
  then have L: "lookup_requests ?rl key = ?v @ [t0]"
    by (simp add: allow_lookup_same Let_def)
  from Suc.prems(1) have w: "0 < window ?rl" by (simp add: allow_window)
  have v: "filter (\<lambda>t. t0 - window rl < t) (lookup_requests ?rl key) = ?v @ [t0]"
    using Suc.prems(1) by (simp add: L)
  from Suc.IH [OF w rest] v show ?case
    unfolding rep
    by (simp add: allow_calls_Cons_snd allow_window allow_limit replicate_app_Cons_same
          del: replicate.simps)
qed

text \<open>
  C4. The limit is positive. A key is called \<^verbatim>\<open>limit\<close> times at the instant \<^verbatim>\<open>t0\<close> and
  all these calls are admitted. Then the next call for the key, at
  \<^verbatim>\<open>t0 + window + eps\<close> with \<^verbatim>\<open>eps > 0\<close>, returns true. When the window is positive,
  every timestamp that the ledger holds before that call has expired at it.
\<close>

theorem allow_after_window:
  assumes "0 < limit rl" and "0 < eps"
    and "fst (allow_calls key (replicate (nat (limit rl)) t0) rl) = replicate (nat (limit rl)) True"
  shows "fst (allow key (t0 + window rl + eps)
            (snd (allow_calls key (replicate (nat (limit rl)) t0) rl))) \<and>
    (0 < window rl \<longrightarrow>
       (\<forall>t\<in>set (lookup_requests (snd (allow_calls key (replicate (nat (limit rl)) t0) rl)) key).
          \<not> time_After t (time_Add (t0 + window rl + eps) (- window rl))))"
proof -
  from assms(1) obtain k where k: "nat (limit rl) = Suc k"
    by (cases "nat (limit rl)") simp_all
  let ?rl = "snd (allow_calls key (replicate k t0) rl)"
  have rep: "replicate (Suc k) t0 = replicate k t0 @ [t0]"
    by (simp add: replicate_append_same)
  have repT: "replicate (Suc k) True = replicate k True @ [True]"
    by (simp add: replicate_append_same)
  have w: "window ?rl = window rl" by (rule allow_calls_window)
  from assms(3) have "fst (allow key t0 ?rl)"
    unfolding k rep repT
    by (simp add: allow_calls_append_fst allow_calls_Cons_fst length_allow_calls)
  from admitted_then_expired [OF this assms(2)]
  have "fst (allow key (t0 + window rl + eps)
            (snd (allow_calls key (replicate (nat (limit rl)) t0) rl)))"
    unfolding k rep
    by (simp add: allow_calls_append_snd allow_calls_Cons_snd w)
  moreover have "\<not> time_After t (time_Add (t0 + window rl + eps) (- window rl))"
    if "0 < window rl"
      and "t \<in> set (lookup_requests (snd (allow_calls key (replicate (nat (limit rl)) t0) rl)) key)"
    for t
  proof -
    from assms(3) have all: "fst (allow_calls key (replicate (Suc k) t0) rl) = replicate (Suc k) True"
      by (simp only: k)
    note led = all_admitted_ledger [OF that(1) all]
    from led k have "length (filter (\<lambda>t. t0 - window rl < t) (lookup_requests rl key)) = 0"
      by linarith
    with led have "lookup_requests (snd (allow_calls key (replicate (Suc k) t0) rl)) key =
        replicate (Suc k) t0"
      by simp
    with that(2) have "t \<in> set (replicate (Suc k) t0)" by (simp only: k)
    then have "t = t0" by (simp del: replicate.simps)
    with assms(2) show ?thesis by (simp add: time_After_def time_Add_def)
  qed
  ultimately show ?thesis by blast
qed

theorem allow_after_window_witness:
  "fst (allow ''A'' (100 + 60 + 1) (snd (allow_calls ''A'' (replicate (nat 3) 100) (newRateLimiter 3 60)))) \<and>
   lookup_requests (snd (allow_calls ''A'' (replicate (nat 3) 100) (newRateLimiter 3 60))) ''A'' = [100, 100, 100]"
proof -
  let ?rl = "newRateLimiter 3 60"
  have l: "0 < limit ?rl" and w: "0 < window ?rl" by (simp_all add: newRateLimiter_def)
  have lw: "limit ?rl = 3" "window ?rl = 60" by (simp_all add: newRateLimiter_def)
  have e: "(0::int) < 1" by simp
  have calls: "fst (allow_calls ''A'' (replicate (nat 3) 100) ?rl) = replicate (nat 3) True"
    by code_simp
  then have adm: "fst (allow_calls ''A'' (replicate (nat (limit ?rl)) 100) ?rl) =
      replicate (nat (limit ?rl)) True"
    by (simp only: lw)
  have led: "lookup_requests (snd (allow_calls ''A'' (replicate (nat 3) 100) ?rl)) ''A'' = [100, 100, 100]"
    by code_simp
  from allow_after_window [OF l e adm] led show ?thesis
    by (simp add: lw)
qed

section \<open>The reaper\<close>

lemma cleanup_key_requests:
  "requests (cleanup_key windowStart key rl) k =
     (if k = key
      then (case requests rl key of
              None \<Rightarrow> None
            | Some reqs \<Rightarrow>
                if filter (\<lambda>t. windowStart < t) reqs = [] then None
                else Some (filter (\<lambda>t. windowStart < t) reqs))
      else requests rl k)"
  by (simp add: cleanup_key_def Let_def validRequests_loop_filter split: option.splits)

lemma cleanup_key_limit: "limit (cleanup_key windowStart key rl) = limit rl"
  by (simp add: cleanup_key_def Let_def split: option.splits)

lemma cleanup_key_window: "window (cleanup_key windowStart key rl) = window rl"
  by (simp add: cleanup_key_def Let_def split: option.splits)

lemma fold_cleanup_key_requests:
  "requests (fold (cleanup_key windowStart) keys rl) k =
     (if k \<in> set keys
      then (case requests rl k of
              None \<Rightarrow> None
            | Some reqs \<Rightarrow>
                if filter (\<lambda>t. windowStart < t) reqs = [] then None
                else Some (filter (\<lambda>t. windowStart < t) reqs))
      else requests rl k)"
proof (induction keys arbitrary: rl)
  case Nil
  show ?case by simp
next
  case (Cons key keys)
  show ?case
    by (simp add: Cons.IH cleanup_key_requests split: option.splits)
qed

lemma fold_cleanup_key_limit: "limit (fold (cleanup_key windowStart) keys rl) = limit rl"
  by (induction keys arbitrary: rl) (simp_all add: cleanup_key_limit)

lemma fold_cleanup_key_window: "window (fold (cleanup_key windowStart) keys rl) = window rl"
  by (induction keys arbitrary: rl) (simp_all add: cleanup_key_window)

lemma cleanup_cycle_requests:
  "requests (cleanup_cycle now keys rl) k =
     (if k \<in> set keys
      then (case requests rl k of
              None \<Rightarrow> None
            | Some reqs \<Rightarrow>
                if filter (\<lambda>t. now - window rl < t) reqs = [] then None
                else Some (filter (\<lambda>t. now - window rl < t) reqs))
      else requests rl k)"
  by (simp add: cleanup_cycle_def Let_def fold_cleanup_key_requests time_Add_def)

text \<open>
  C7. \<^verbatim>\<open>keys\<close> are the keys of the map when the cycle begins. After a reaper cycle at
  \<^verbatim>\<open>now\<close> the entry of every key is its ledger filtered by the same loop and the same
  \<^verbatim>\<open>windowStart = now - window\<close> as in \<^verbatim>\<open>allow\<close>, and the key is deleted exactly when
  that filtered ledger is empty. So every key that is still in the map has a non-empty
  ledger of timestamps strictly after \<^verbatim>\<open>now - window\<close>, and a key all of whose
  timestamps had expired is no longer in the map.
\<close>

theorem cleanup_cycle_prunes_and_deletes:
  assumes "set keys = dom (requests rl)"
  shows "(\<forall>key. requests (cleanup_cycle now keys rl) key =
      (case requests rl key of
         None \<Rightarrow> None
       | Some reqs \<Rightarrow>
           if validRequests_loop (time_Add now (- window rl)) reqs [] = [] then None
           else Some (validRequests_loop (time_Add now (- window rl)) reqs []))) \<and>
    (\<forall>key ts. requests (cleanup_cycle now keys rl) key = Some ts \<longrightarrow>
       ts \<noteq> [] \<and> (\<forall>t\<in>set ts. time_After t (time_Add now (- window rl)))) \<and>
    (\<forall>key reqs. requests rl key = Some reqs \<and>
       (\<forall>t\<in>set reqs. \<not> time_After t (time_Add now (- window rl))) \<longrightarrow>
       requests (cleanup_cycle now keys rl) key = None)"
proof -
  have dom: "k \<in> set keys \<longleftrightarrow> requests rl k \<noteq> None" for k
    using assms by (auto simp add: dom_def)
  have 1: "requests (cleanup_cycle now keys rl) key =
      (case requests rl key of
         None \<Rightarrow> None
       | Some reqs \<Rightarrow>
           if validRequests_loop (time_Add now (- window rl)) reqs [] = [] then None
           else Some (validRequests_loop (time_Add now (- window rl)) reqs []))" for key
    by (simp add: cleanup_cycle_requests dom validRequests_loop_filter time_Add_def
          split: option.splits)
  have 2: "ts \<noteq> [] \<and> (\<forall>t\<in>set ts. time_After t (time_Add now (- window rl)))"
    if "requests (cleanup_cycle now keys rl) key = Some ts" for key ts
    using that unfolding 1
    by (auto simp add: validRequests_loop_filter time_After_def split: option.splits if_splits)
  have 3: "requests (cleanup_cycle now keys rl) key = None"
    if "requests rl key = Some reqs"
      and "\<forall>t\<in>set reqs. \<not> time_After t (time_Add now (- window rl))" for key reqs
    using that unfolding 1
    by (simp add: validRequests_loop_filter time_After_def filter_empty_conv)
  from 1 2 3 show ?thesis by blast
qed

theorem cleanup_cycle_prunes_and_deletes_witness:
  "requests (cleanup_cycle 100 [''A'', ''B'']
      \<lparr>requests = [''A'' \<mapsto> [0, 50], ''B'' \<mapsto> [0, 40]], limit = 5, window = 60\<rparr>) ''A'' = Some [50] \<and>
   requests (cleanup_cycle 100 [''A'', ''B'']
      \<lparr>requests = [''A'' \<mapsto> [0, 50], ''B'' \<mapsto> [0, 40]], limit = 5, window = 60\<rparr>) ''B'' = None"
proof -
  let ?rl = "\<lparr>requests = [''A'' \<mapsto> [0, 50], ''B'' \<mapsto> [0, 40]], limit = 5, window = 60\<rparr>"
  have keys: "set [''A'', ''B''] = dom (requests ?rl)" by auto
  have A: "requests ?rl ''A'' = Some [0, 50]" and B: "requests ?rl ''B'' = Some [0, 40]"
    by simp_all
  have exp: "\<forall>t\<in>set [0, 40]. \<not> time_After t (time_Add 100 (- window ?rl))"
    by (simp add: time_After_def time_Add_def)
  note cyc = cleanup_cycle_prunes_and_deletes [OF keys, of 100]
  from cyc have "requests (cleanup_cycle 100 [''A'', ''B''] ?rl) ''A'' =
      Some (validRequests_loop (time_Add 100 (- window ?rl)) [0, 50] [])"
    by (simp add: time_After_def time_Add_def)
  moreover from cyc B exp have "requests (cleanup_cycle 100 [''A'', ''B''] ?rl) ''B'' = None"
    by blast
  ultimately show ?thesis
    by (simp add: time_After_def time_Add_def)
qed

section \<open>The invariant of the ledgers\<close>

lemma timestamps_upto_mono:
  "timestamps_upto clock rl \<Longrightarrow> clock \<le> now \<Longrightarrow> timestamps_upto now rl"
  unfolding timestamps_upto_def by fastforce

lemma lookup_requests_bounded_sorted:
  "ledgers_bounded_sorted rl \<Longrightarrow> 0 \<le> limit rl \<Longrightarrow>
   int (length (lookup_requests rl key)) \<le> limit rl \<and> sorted (lookup_requests rl key)"
  by (simp add: ledgers_bounded_sorted_def lookup_requests_def split: option.splits)

lemma lookup_requests_upto:
  "timestamps_upto clock rl \<Longrightarrow> \<forall>t\<in>set (lookup_requests rl key). t \<le> clock"
  unfolding timestamps_upto_def lookup_requests_def
  by (cases "requests rl key") simp_all

lemma allow_bounded_sorted:
  assumes "0 \<le> limit rl" and "ledgers_bounded_sorted rl" and "timestamps_upto now rl"
  shows "ledgers_bounded_sorted (snd (allow key now rl))"
  unfolding ledgers_bounded_sorted_def
proof (intro allI impI)
  fix k ts
  assume ts: "requests (snd (allow key now rl)) k = Some ts"
  let ?L = "lookup_requests rl key"
  let ?v = "filter (\<lambda>t. now - window rl < t) ?L"
  show "int (length ts) \<le> limit (snd (allow key now rl)) \<and> sorted ts"
  proof (cases "k = key")
    case False
    with ts assms(2) show ?thesis
      by (simp add: allow_requests_other allow_limit ledgers_bounded_sorted_def)
  next
    case True
    from lookup_requests_bounded_sorted [OF assms(2,1), of key]
    have L: "int (length ?L) \<le> limit rl" "sorted ?L" by simp_all
    have "length ?v \<le> length ?L" by (rule length_filter_le)
    with L(1) have len: "int (length ?v) \<le> limit rl" by linarith
    from L(2) have sv: "sorted ?v" by (rule sorted_wrt_filter)
    from lookup_requests_upto [OF assms(3), of key]
    have "\<forall>t\<in>set ?v. t \<le> now" by simp
    with sv have svn: "sorted (?v @ [now])" by (simp add: sorted_append)
    from ts True have "ts = (if limit rl \<le> int (length ?v) then ?v else ?v @ [now])"
      by (simp add: allow_requests_same Let_def)
    with len sv svn show ?thesis
      by (simp add: allow_limit split: if_splits)
  qed
qed

lemma allow_timestamps_upto:
  assumes "timestamps_upto now rl"
  shows "timestamps_upto now (snd (allow key now rl))"
  unfolding timestamps_upto_def
proof (intro allI impI)
  fix k ts
  assume ts: "requests (snd (allow key now rl)) k = Some ts"
  show "\<forall>t\<in>set ts. t \<le> now"
  proof (cases "k = key")
    case False
    with ts assms show ?thesis
      by (simp add: allow_requests_other timestamps_upto_def)
  next
    case True
    from lookup_requests_upto [OF assms, of key]
    have "\<forall>t\<in>set (filter (\<lambda>t. now - window rl < t) (lookup_requests rl key)). t \<le> now"
      by simp
    with ts True show ?thesis
      by (auto simp add: allow_requests_same Let_def split: if_splits)
  qed
qed

lemma cleanup_cycle_limit: "limit (cleanup_cycle now keys rl) = limit rl"
  by (simp add: cleanup_cycle_def Let_def fold_cleanup_key_limit)

lemma cleanup_cycle_window: "window (cleanup_cycle now keys rl) = window rl"
  by (simp add: cleanup_cycle_def Let_def fold_cleanup_key_window)

lemma cleanup_cycle_sublist:
  assumes "requests (cleanup_cycle now keys rl) k = Some ts"
  shows "\<exists>reqs. requests rl k = Some reqs \<and>
    (ts = reqs \<or> ts = filter (\<lambda>t. now - window rl < t) reqs)"
  using assms by (auto simp add: cleanup_cycle_requests split: if_splits option.splits)

lemma cleanup_cycle_bounded_sorted:
  assumes "ledgers_bounded_sorted rl"
  shows "ledgers_bounded_sorted (cleanup_cycle now keys rl)"
  unfolding ledgers_bounded_sorted_def
proof (intro allI impI)
  fix k ts
  assume "requests (cleanup_cycle now keys rl) k = Some ts"
  from cleanup_cycle_sublist [OF this] obtain reqs where reqs: "requests rl k = Some reqs"
    and ts: "ts = reqs \<or> ts = filter (\<lambda>t. now - window rl < t) reqs"
    by blast
  from assms reqs have b: "int (length reqs) \<le> limit rl" and s: "sorted reqs"
    by (simp_all add: ledgers_bounded_sorted_def)
  have "length (filter (\<lambda>t. now - window rl < t) reqs) \<le> length reqs"
    by (rule length_filter_le)
  with b have "int (length (filter (\<lambda>t. now - window rl < t) reqs)) \<le> limit rl"
    by linarith
  moreover from s have "sorted (filter (\<lambda>t. now - window rl < t) reqs)"
    by (rule sorted_wrt_filter)
  ultimately show "int (length ts) \<le> limit (cleanup_cycle now keys rl) \<and> sorted ts"
    using ts b s by (auto simp add: cleanup_cycle_limit)
qed

lemma cleanup_cycle_timestamps_upto:
  assumes "timestamps_upto now rl"
  shows "timestamps_upto now (cleanup_cycle now keys rl)"
  unfolding timestamps_upto_def
proof (intro allI impI)
  fix k ts
  assume "requests (cleanup_cycle now keys rl) k = Some ts"
  from cleanup_cycle_sublist [OF this] obtain reqs where reqs: "requests rl k = Some reqs"
    and ts: "ts = reqs \<or> ts = filter (\<lambda>t. now - window rl < t) reqs"
    by blast
  from assms reqs have "\<forall>t\<in>set reqs. t \<le> now"
    by (simp add: timestamps_upto_def)
  with ts show "\<forall>t\<in>set ts. t \<le> now" by auto
qed

text \<open>
  C10. The limit is at least 1, every ledger has at most \<^verbatim>\<open>limit\<close> entries and is in
  nondecreasing order, and the clock does not go backwards: \<^verbatim>\<open>clock\<close> is a reading not
  before any stored timestamp and \<^verbatim>\<open>now\<close>, the reading of the operation, is not before
  \<^verbatim>\<open>clock\<close>. Then after \<^verbatim>\<open>allow\<close> for any key at \<^verbatim>\<open>now\<close>, and after a reaper cycle at
  \<^verbatim>\<open>now\<close> over any keys, every ledger again has at most \<^verbatim>\<open>limit\<close> entries and is in
  nondecreasing order, and no stored timestamp is later than \<^verbatim>\<open>now\<close>.
\<close>

theorem operations_preserve_invariant:
  assumes "1 \<le> limit rl" and "ledgers_bounded_sorted rl"
    and "timestamps_upto clock rl" and "clock \<le> now"
  shows "ledgers_bounded_sorted (snd (allow key now rl)) \<and>
    timestamps_upto now (snd (allow key now rl)) \<and>
    ledgers_bounded_sorted (cleanup_cycle now keys rl) \<and>
    timestamps_upto now (cleanup_cycle now keys rl)"
proof -
  from assms(3,4) have upto: "timestamps_upto now rl" by (rule timestamps_upto_mono)
  from assms(1) have "0 \<le> limit rl" by simp
  from allow_bounded_sorted [OF this assms(2) upto] allow_timestamps_upto [OF upto]
    cleanup_cycle_bounded_sorted [OF assms(2)] cleanup_cycle_timestamps_upto [OF upto]
  show ?thesis by blast
qed


theorem operations_preserve_invariant_witness:
  "requests (snd (allow ''A'' 5 \<lparr>requests = [''A'' \<mapsto> [1, 2]], limit = 3, window = 60\<rparr>)) ''A'' =
     Some [1, 2, 5] \<and>
   ledgers_bounded_sorted (snd (allow ''A'' 5 \<lparr>requests = [''A'' \<mapsto> [1, 2]], limit = 3, window = 60\<rparr>)) \<and>
   timestamps_upto 5 (snd (allow ''A'' 5 \<lparr>requests = [''A'' \<mapsto> [1, 2]], limit = 3, window = 60\<rparr>)) \<and>
   requests (cleanup_cycle 5 [''A''] \<lparr>requests = [''A'' \<mapsto> [1, 2]], limit = 3, window = 60\<rparr>) ''A'' =
     Some [1, 2] \<and>
   ledgers_bounded_sorted (cleanup_cycle 5 [''A''] \<lparr>requests = [''A'' \<mapsto> [1, 2]], limit = 3, window = 60\<rparr>) \<and>
   timestamps_upto 5 (cleanup_cycle 5 [''A''] \<lparr>requests = [''A'' \<mapsto> [1, 2]], limit = 3, window = 60\<rparr>)"
proof -
  let ?rl = "\<lparr>requests = [''A'' \<mapsto> [1, 2]], limit = 3, window = 60\<rparr>"
  have l: "1 \<le> limit ?rl" by simp
  have inv: "ledgers_bounded_sorted ?rl"
    by (simp add: ledgers_bounded_sorted_def)
  have upto: "timestamps_upto 2 ?rl"
    by (simp add: timestamps_upto_def)
  have c: "(2::int) \<le> 5" by simp
  have a: "requests (snd (allow ''A'' 5 ?rl)) ''A'' = Some [1, 2, 5]"
    by (simp add: allow_requests_same lookup_requests_def)
  have r: "requests (cleanup_cycle 5 [''A''] ?rl) ''A'' = Some [1, 2]"
    by (simp add: cleanup_cycle_requests)
  from operations_preserve_invariant [OF l inv upto c, of "''A''" "[''A'']"] a r
  show ?thesis by simp
qed

section \<open>The states an execution reaches\<close>

text \<open>
  The hypotheses on the state made above hold whenever the limiter runs. From a fresh
  limiter, every execution whose clock readings are nondecreasing reaches only states in
  which no stored timestamp is later than the latest reading; when the limit is not
  negative, these states satisfy the invariant of the ledgers.
\<close>

lemma step_limit: "limit (step e rl) = limit rl"
  by (cases e) (simp_all add: allow_limit cleanup_cycle_limit)

lemma step_window: "window (step e rl) = window rl"
  by (cases e) (simp_all add: allow_window cleanup_cycle_window)

lemma run_snoc: "run (events @ [e]) rl = step e (run events rl)"
  by (simp add: run_def)

lemma run_limit: "limit (run events rl) = limit rl"
  by (induction events rule: rev_induct) (simp_all add: run_snoc step_limit, simp add: run_def)

lemma run_window: "window (run events rl) = window rl"
  by (induction events rule: rev_induct) (simp_all add: run_snoc step_window, simp add: run_def)

lemma step_timestamps_upto:
  "timestamps_upto (event_time e) rl \<Longrightarrow> timestamps_upto (event_time e) (step e rl)"
  by (cases e) (simp_all add: allow_timestamps_upto cleanup_cycle_timestamps_upto)

lemma run_timestamps_upto:
  assumes "sorted (map event_time events)" and "\<forall>e\<in>set events. event_time e \<le> now"
  shows "timestamps_upto now (run events (newRateLimiter limit0 window0))"
  using assms
proof (induction events arbitrary: now rule: rev_induct)
  case Nil
  show ?case
    by (simp add: run_def newRateLimiter_def timestamps_upto_def)
next
  case (snoc e events)
  from snoc.prems(1) have "sorted (map event_time events)"
    and "\<forall>x\<in>set events. event_time x \<le> event_time e"
    by (simp_all add: sorted_append)
  then have "timestamps_upto (event_time e) (run events (newRateLimiter limit0 window0))"
    by (rule snoc.IH)
  then have "timestamps_upto (event_time e) (run (events @ [e]) (newRateLimiter limit0 window0))"
    by (simp add: run_snoc step_timestamps_upto)
  moreover from snoc.prems(2) have "event_time e \<le> now" by simp
  ultimately show ?case by (rule timestamps_upto_mono)
qed

lemma run_bounded_sorted:
  assumes "0 \<le> limit0" and "sorted (map event_time events)"
  shows "ledgers_bounded_sorted (run events (newRateLimiter limit0 window0))"
  using assms(2)
proof (induction events rule: rev_induct)
  case Nil
  show ?case
    by (simp add: run_def newRateLimiter_def ledgers_bounded_sorted_def)
next
  case (snoc e events)
  let ?rl = "run events (newRateLimiter limit0 window0)"
  from snoc.prems have s: "sorted (map event_time events)"
    and le: "\<forall>x\<in>set events. event_time x \<le> event_time e"
    by (simp_all add: sorted_append)
  from s have inv: "ledgers_bounded_sorted ?rl" by (rule snoc.IH)
  from s le have upto: "timestamps_upto (event_time e) ?rl" by (rule run_timestamps_upto)
  have l: "0 \<le> limit ?rl"
    using assms(1) by (simp add: run_limit newRateLimiter_def)
  show ?case
  proof (cases e)
    case (Allow key now)
    with allow_bounded_sorted [OF l inv, of now key] upto show ?thesis
      by (simp add: run_snoc)
  next
    case (Cleanup now keys)
    with cleanup_cycle_bounded_sorted [OF inv, of now keys] show ?thesis
      by (simp add: run_snoc)
  qed
qed

text \<open>
  A reaper cycle does not change what later calls answer: it drops only timestamps that
  a call at the same or a later instant drops too. So the results about sequences of
  calls for one key hold as well when reaper cycles, and by C6 calls for other keys, take
  place between these calls.
\<close>

lemma lookup_requests_cleanup_cycle:
  "lookup_requests (cleanup_cycle c keys rl) key =
     (if key \<in> set keys then filter (\<lambda>t. c - window rl < t) (lookup_requests rl key)
      else lookup_requests rl key)"
  by (simp add: lookup_requests_def cleanup_cycle_requests split: option.splits)

lemma cleanup_cycle_transparent:
  assumes "c \<le> now"
  shows "fst (allow key now (cleanup_cycle c keys rl)) = fst (allow key now rl) \<and>
    requests (snd (allow key now (cleanup_cycle c keys rl))) key =
      requests (snd (allow key now rl)) key"
proof -
  from assms have "c - window rl \<le> now - window rl" by simp
  then have "filter (\<lambda>t. now - window rl < t) (lookup_requests (cleanup_cycle c keys rl) key) =
      filter (\<lambda>t. now - window rl < t) (lookup_requests rl key)"
    by (simp add: lookup_requests_cleanup_cycle filter_filter_later del: filter_filter)
  then show ?thesis
    by (simp add: allow_fst allow_requests_same cleanup_cycle_window cleanup_cycle_limit)
qed

end
